theory Spec2Isabelle
  imports Main "HOL-Library.Word" "HOL-Library.Multiset"
begin

section \<open>The task package: data model\<close>

text \<open>
  The package \<^verbatim>\<open>task\<close> executes trees of tasks and reverts them on failure.
  The values handed from task to task are Go \<^verbatim>\<open>interface{}\<close> values; the model keeps
  the shapes the examples and tests use. A Go \<^verbatim>\<open>int\<close> has 64 bits and its arithmetic wraps
  around.
\<close>

datatype val = VNil | VInt "64 word" | VStr string

text \<open>An \<^verbatim>\<open>error\<close> built by \<^verbatim>\<open>errors.New\<close> or \<^verbatim>\<open>fmt.Errorf\<close>: its message.\<close>

datatype error = Error string

text \<open>
  A \<^verbatim>\<open>context.Context\<close> is a chain of key/value bindings, the innermost binding first;
  \<^verbatim>\<open>context.Background()\<close> is the empty chain. Keys are compared with their dynamic type:
  \<^verbatim>\<open>CtxKey("ctx")\<close> differs from a key of another type that prints the same. A bound value is
  either a \<^verbatim>\<open>*TaskContext\<close>, which may be the nil pointer of that type (\<open>None\<close>), or
  something else. Pointers to tasks are addresses. The nil
  interface value is no context: the package \<^verbatim>\<open>context\<close> forbids passing it.
\<close>

type_synonym addr = nat

datatype key = CtxKey string | OtherKey string

datatype TaskContext = TaskContext (Parent: "addr option") (Task: addr)

datatype any = PtrTaskContext "TaskContext option" | Plain val

type_synonym ctx = "(key \<times> any) list"

text \<open>
  A \<^verbatim>\<open>TaskFunc\<close> returns a value and a nil error (\<open>Ok\<close>), a non-nil error (\<open>Err\<close>; both
  callers ignore the value then), or panics (a failed type assertion, an index out of range).
\<close>

datatype ret = Ok val | Err error | Panic

type_synonym TaskFunc = "ctx \<Rightarrow> val list \<Rightarrow> ret"

text \<open>A function of the package either returns or panics.\<close>

datatype 'a go = Return 'a | Panicking

text \<open>
  The struct \<^verbatim>\<open>Task\<close>. Its subtasks are pointers: \<open>'p\<close> is \<^typ>\<open>addr\<close> where tasks live in
  a heap (construction and attachment), and \<open>tree\<close> where a task owns its subtasks
  (execution over a tree). A nil \<^verbatim>\<open>Run\<close> or \<^verbatim>\<open>Revert\<close> is \<open>None\<close>.
\<close>

datatype 'p Task = MkTask (ID: string) (Parameters: "val list") (Context: ctx)
  (Subtasks: "'p list") (Run_fn: "TaskFunc option") (Revert_fn: "TaskFunc option")

datatype tree = Tree (node: "tree Task")

fun weight :: "tree \<Rightarrow> nat" where
  "weight (Tree (MkTask i p c sts r rv)) = Suc (sum_list (map weight sts))"

lemma weight_node: "weight task = Suc (sum_list (map weight (Subtasks (node task))))"
proof (cases task)
  case (Tree t)
  then show ?thesis by (cases t) simp
qed

text \<open>Assignments to single fields of a task.\<close>

definition set_Parameters :: "val list \<Rightarrow> 'p Task \<Rightarrow> 'p Task" where
  "set_Parameters ps t = MkTask (ID t) ps (Context t) (Subtasks t) (Run_fn t) (Revert_fn t)"

definition set_Context :: "ctx \<Rightarrow> 'p Task \<Rightarrow> 'p Task" where
  "set_Context c t = MkTask (ID t) (Parameters t) c (Subtasks t) (Run_fn t) (Revert_fn t)"

definition set_Subtasks :: "'q list \<Rightarrow> 'p Task \<Rightarrow> 'q Task" where
  "set_Subtasks sts t = MkTask (ID t) (Parameters t) (Context t) sts (Run_fn t) (Revert_fn t)"

definition set_Run :: "TaskFunc option \<Rightarrow> 'p Task \<Rightarrow> 'p Task" where
  "set_Run f t = MkTask (ID t) (Parameters t) (Context t) (Subtasks t) f (Revert_fn t)"

definition set_Revert :: "TaskFunc option \<Rightarrow> 'p Task \<Rightarrow> 'p Task" where
  "set_Revert f t = MkTask (ID t) (Parameters t) (Context t) (Subtasks t) (Run_fn t) f"

section \<open>Construction: the counter, New and AddSubtasks\<close>

text \<open>
  The program state the builder works on: the package variable \<^verbatim>\<open>counter\<close> (an
  \<^verbatim>\<open>atomic.Int64\<close>) and the allocated tasks. A \<^verbatim>\<open>*Task\<close> is the index of its object in
  \<open>heap\<close>; a pointer that is not allocated stands for nil.
\<close>

record state =
  counter :: "64 word"
  heap :: "addr Task list"

definition init :: state where
  "init = \<lparr>counter = 0, heap = []\<rparr>"

text \<open>The verb \<^verbatim>\<open>%d\<close> of \<^verbatim>\<open>fmt.Sprintf\<close> on an \<^verbatim>\<open>int64\<close>.\<close>

fun digits :: "nat \<Rightarrow> string" where
  "digits n = (if n < 10 then [''0123456789'' ! n]
               else digits (n div 10) @ [''0123456789'' ! (n mod 10)])"

definition Sprintf_d :: "int \<Rightarrow> string" where
  "Sprintf_d i = (if i < 0 then CHR ''-'' # digits (nat (- i)) else digits (nat i))"

text \<open>
  A \<^verbatim>\<open>TaskConfigFunc\<close> receives the task under construction and assigns to its fields.
\<close>

type_synonym TaskConfigFunc = "addr Task \<Rightarrow> addr Task"

definition WithFunc :: "TaskFunc \<Rightarrow> TaskConfigFunc" where
  "WithFunc f = set_Run (Some f)"

definition WithRevertFunc :: "TaskFunc \<Rightarrow> TaskConfigFunc" where
  "WithRevertFunc f = set_Revert (Some f)"

definition WithParameters :: "val list \<Rightarrow> TaskConfigFunc" where
  "WithParameters parameters = set_Parameters parameters"

definition WithValue :: "ctx \<Rightarrow> key \<Rightarrow> any \<Rightarrow> ctx" where
  "WithValue parent k v = (k, v) # parent"

text \<open>
  \<^verbatim>\<open>New(ctx, cfgs...)\<close> in its two accesses to the counter. \<open>New_build\<close> is the function up
  to and including the assignment of \<^verbatim>\<open>t.Context\<close>: it reads the counter with
  \<^verbatim>\<open>counter.Load()\<close>, formats the ID, applies the configuration functions in order and
  binds the task's own context entry. \<open>counter_Add\<close> is \<^verbatim>\<open>counter.Add(1)\<close>.
\<close>

definition New_build :: "ctx \<Rightarrow> TaskConfigFunc list \<Rightarrow> state \<Rightarrow> addr \<times> state" where
  "New_build c cfgs s =
     (let taskID = ''task_'' @ Sprintf_d (sint (counter s));
          t = length (heap s);
          obj = foldl (\<lambda>obj cfg. cfg obj) (MkTask taskID [] [] [] None None) cfgs;
          valueContext = WithValue c (CtxKey ''ctx'') (PtrTaskContext (Some (TaskContext None t)))
      in (t, s\<lparr>heap := heap s @ [set_Context valueContext obj]\<rparr>))"

definition counter_Add :: "64 word \<Rightarrow> state \<Rightarrow> state" where
  "counter_Add d s = s\<lparr>counter := counter s + d\<rparr>"

definition New :: "ctx \<Rightarrow> TaskConfigFunc list \<Rightarrow> state \<Rightarrow> addr \<times> state" where
  "New c cfgs s = (case New_build c cfgs s of (t, s') \<Rightarrow> (t, counter_Add 1 s'))"

text \<open>
  Goroutines that each call \<^verbatim>\<open>New\<close> once. The two atomic operations of a call are separate
  steps, so the calls of several goroutines interleave between them: a goroutine is about to
  call (\<open>Calling\<close>), has built its task and not yet added to the counter (\<open>Built\<close>), or has
  returned its task (\<open>Returned\<close>). A schedule names the goroutine that takes the next step.
\<close>

datatype goroutine = Calling ctx "TaskConfigFunc list" | Built addr | Returned addr

fun step :: "goroutine list \<times> state \<Rightarrow> nat \<Rightarrow> goroutine list \<times> state" where
  "step (gs, s) i =
     (if i < length gs
      then (case gs ! i of
              Calling c cfgs \<Rightarrow> (case New_build c cfgs s of (t, s') \<Rightarrow> (gs[i := Built t], s'))
            | Built t \<Rightarrow> (gs[i := Returned t], counter_Add 1 s)
            | Returned t \<Rightarrow> (gs, s))
      else (gs, s))"

definition schedule :: "nat list \<Rightarrow> goroutine list \<times> state \<Rightarrow> goroutine list \<times> state" where
  "schedule order cfg = foldl step cfg order"

text \<open>
  \<^verbatim>\<open>t.AddSubtasks(st...)\<close>: the loop rebinds the context of each subtask, reading the
  parent's context at each iteration; then the subtasks are appended. Dereferencing a nil
  pointer panics.
\<close>

fun rebind :: "addr \<Rightarrow> addr list \<Rightarrow> addr Task list \<Rightarrow> addr Task list go" where
  "rebind t [] h = Return h"
| "rebind t (subtask # st) h =
     (if t < length h \<and> subtask < length h
      then rebind t st
             (h[subtask := set_Context
                  (WithValue (Context (h ! t)) (CtxKey ''ctx'')
                     (PtrTaskContext (Some (TaskContext (Some t) subtask))))
                  (h ! subtask)])
      else Panicking)"

definition AddSubtasks :: "addr \<Rightarrow> addr list \<Rightarrow> state \<Rightarrow> state go" where
  "AddSubtasks t st s =
     (case rebind t st (heap s) of
        Panicking \<Rightarrow> Panicking
      | Return h \<Rightarrow>
          if t < length h
          then Return (s\<lparr>heap := h[t := set_Subtasks (Subtasks (h ! t) @ st) (h ! t)]\<rparr>)
          else Panicking)"

text \<open>The states the builder reaches: any sequence of \<^verbatim>\<open>New\<close> and \<^verbatim>\<open>AddSubtasks\<close>.\<close>

inductive built :: "state \<Rightarrow> bool" where
  built_init: "built init"
| built_New: "built s \<Longrightarrow> built (snd (New c cfgs s))"
| built_AddSubtasks: "built s \<Longrightarrow> AddSubtasks t st s = Return s' \<Longrightarrow> built s'"

text \<open>
  \<^verbatim>\<open>ctx.Value(key)\<close> is the value of the innermost binding of the key, and nil (\<open>None\<close>)
  when the chain binds nothing to it.
\<close>

definition Value :: "ctx \<Rightarrow> key \<Rightarrow> any option" where
  "Value c k = map_of c k"

text \<open>
  \<^verbatim>\<open>DecodeCtx\<close>: the type assertion of \<^verbatim>\<open>ctx.Value(CtxKey("ctx"))\<close> to \<^verbatim>\<open>*TaskContext\<close>
  fails when nothing is bound and when the bound value has another type; it succeeds on
  every \<^verbatim>\<open>*TaskContext\<close>, the nil pointer of that type included, and the pointer is returned
  with a nil error. \<^verbatim>\<open>MustDecodeCtx\<close> panics on the error.
\<close>

definition DecodeCtx :: "ctx \<Rightarrow> error + TaskContext option" where
  "DecodeCtx c =
     (case Value c (CtxKey ''ctx'') of
        Some (PtrTaskContext tc) \<Rightarrow> Inr tc
      | _ \<Rightarrow> Inl (Error ''no context found''))"

definition MustDecodeCtx :: "ctx \<Rightarrow> TaskContext option go" where
  "MustDecodeCtx c = (case DecodeCtx c of Inl err \<Rightarrow> Panicking | Inr tc \<Rightarrow> Return tc)"

text \<open>
  The tree a pointer stands for: the object and, through \<^verbatim>\<open>Subtasks\<close>, the trees of its
  subtasks. The first argument bounds the depth; \<open>None\<close> when it does not suffice or a
  pointer is nil.
\<close>

fun reify :: "nat \<Rightarrow> addr Task list \<Rightarrow> addr \<Rightarrow> tree option" where
  "reify 0 h t = None"
| "reify (Suc n) h t =
     (if t < length h
      then (case those (map (reify n h) (Subtasks (h ! t))) of
              None \<Rightarrow> None
            | Some sts \<Rightarrow> Some (Tree (set_Subtasks sts (h ! t))))
      else None)"

section \<open>Execution and compensation\<close>

text \<open>
  The calls of user functions a run makes are its observable effect: each call is recorded,
  in order, with the task's ID and the values it was given.
\<close>

datatype event = RunCall string "val list" | RevertCall string "val list"

definition emit :: "event \<Rightarrow> 'a \<times> event list \<Rightarrow> 'a \<times> event list" where
  "emit ev r = (fst r, ev # snd r)"

text \<open>
  \<^verbatim>\<open>Revert(tasks, values...)\<close>: a queue loop. The head is taken off, its \<^verbatim>\<open>Revert\<close> is called
  when it is not nil (the error is dropped), and its subtasks are appended to the queue.
  Go's \<^verbatim>\<open>Revert\<close> returns nothing: the model returns how it ended and the calls it made.
\<close>

function Revert :: "tree list \<Rightarrow> val list \<Rightarrow> unit go \<times> event list" where
  "Revert [] values = (Return (), [])"
| "Revert (task # tasks) values =
     (case Revert_fn (node task) of
        None \<Rightarrow> Revert (tasks @ Subtasks (node task)) values
      | Some f \<Rightarrow>
          (case f (Context (node task)) values of
             Panic \<Rightarrow> (Panicking, [RevertCall (ID (node task)) values])
           | Ok _ \<Rightarrow> emit (RevertCall (ID (node task)) values)
                      (Revert (tasks @ Subtasks (node task)) values)
           | Err _ \<Rightarrow> emit (RevertCall (ID (node task)) values)
                      (Revert (tasks @ Subtasks (node task)) values)))"
  by pat_completeness auto
termination
  by (relation "measure (\<lambda>(ts, vs). sum_list (map weight ts))")
     (auto simp: weight_node [of "task" for task])

text \<open>
  \<^verbatim>\<open>Run(tasks, values...)\<close>: the loop of the sequential executor, with its variables
  \<^verbatim>\<open>tasks\<close>, \<^verbatim>\<open>values\<close>, \<^verbatim>\<open>result\<close> and \<^verbatim>\<open>successfulTasks\<close>. Calling a nil \<^verbatim>\<open>Run\<close> panics.
  On an error the tasks that succeeded so far are reverted with the current \<^verbatim>\<open>values\<close>
  and the error is returned with a nil result (\<open>Inl\<close>); \<open>Inr\<close> is a result with a nil error.
  The statement \<^verbatim>\<open>successfulTasks = append(successfulTasks[:1], successfulTasks...)\<close>
  followed by \<^verbatim>\<open>successfulTasks[0] = task\<close> puts the task in front.
\<close>

function Run_loop ::
  "tree list \<Rightarrow> val list \<Rightarrow> val list \<Rightarrow> tree list \<Rightarrow> (error + val list) go \<times> event list"
where
  "Run_loop [] values result successfulTasks = (Return (Inr result), [])"
| "Run_loop (task # tasks) values result successfulTasks =
     (case Run_fn (node task) of
        None \<Rightarrow> (Panicking, [])
      | Some f \<Rightarrow>
          (case f (Context (node task)) values of
             Panic \<Rightarrow> (Panicking, [RunCall (ID (node task)) values])
           | Err err \<Rightarrow>
               emit (RunCall (ID (node task)) values)
                 (case Revert successfulTasks values of
                    (Panicking, evs) \<Rightarrow> (Panicking, evs)
                  | (Return _, evs) \<Rightarrow> (Return (Inl err), evs))
           | Ok v \<Rightarrow>
               emit (RunCall (ID (node task)) values)
                 (Run_loop (tasks @ Subtasks (node task)) (values @ [v]) (result @ [v])
                    (task # successfulTasks))))"
  by pat_completeness auto
termination
  by (relation "measure (\<lambda>(ts, vs, res, succ). sum_list (map weight ts))")
     (auto simp: weight_node [of "task" for task])

definition Run :: "tree list \<Rightarrow> val list \<Rightarrow> (error + val list) go \<times> event list" where
  "Run tasks values = Run_loop tasks values [] []"

subsection \<open>The loop on the caller's slice\<close>

text \<open>
  \<^verbatim>\<open>Run\<close> writes through its parameter \<^verbatim>\<open>tasks\<close>: \<^verbatim>\<open>tasks[0] = nil\<close> clears a slot of the
  backing array, which is the caller's until an \<^verbatim>\<open>append\<close> outgrows its capacity and moves
  the queue to a new array. \<open>Run_slice\<close> is the same loop with that memory made explicit:
  \<open>array\<close> is the caller's backing array from the first element of the caller's slice up to
  its capacity, \<open>at\<close> is the offset of the queue in \<open>array\<close> (\<open>None\<close> once the queue has
  moved), and \<open>tasks\<close> is the content of the queue, whose elements may be nil pointers.
  \<^verbatim>\<open>append\<close> writes in place when length plus added elements is within the capacity, and
  copies to a new array otherwise. The final content of \<open>array\<close> is returned with the
  outcome. \<open>Run_mem array n\<close> is the call with the slice of the first \<open>n\<close> elements of
  \<open>array\<close>.
\<close>

definition store :: "'a list \<Rightarrow> nat \<Rightarrow> 'a list \<Rightarrow> 'a list" where
  "store array i xs = take i array @ xs @ drop (i + length xs) array"





text \<open>
  The content of the queue is what the array holds at the queue's offset, as long as the
  queue has not moved.
\<close>

definition window :: "'a list \<Rightarrow> nat option \<Rightarrow> 'a list \<Rightarrow> bool" where
  "window array at tasks \<longleftrightarrow>
     (case at of
        None \<Rightarrow> True
      | Some i \<Rightarrow> i + length tasks \<le> length array \<and> take (length tasks) (drop i array) = tasks)"

section \<open>Orders on a forest of tasks\<close>

text \<open>
  The order in which a queue loop takes tasks off (\<open>queue_order\<close>), the order level by
  level (\<open>levels\<close>: the given tasks, then all their subtasks, then the subtasks of those),
  and pre-order (\<open>preorder\<close>: a task, then the pre-order of each of its subtasks in turn).
\<close>

function queue_order :: "tree list \<Rightarrow> tree list" where
  "queue_order [] = []"
| "queue_order (task # tasks) = task # queue_order (tasks @ Subtasks (node task))"
  by pat_completeness auto
termination
  by (relation "measure (\<lambda>ts. sum_list (map weight ts))")
     (auto simp: weight_node [of "task" for task])

function levels :: "tree list \<Rightarrow> tree list" where
  "levels tasks =
     (if tasks = [] then [] else tasks @ levels (concat (map (\<lambda>t. Subtasks (node t)) tasks)))"
  by pat_completeness auto

lemma weight_subtasks_concat:
  "tasks \<noteq> [] \<Longrightarrow>
     sum_list (map weight (concat (map (\<lambda>t. Subtasks (node t)) tasks))) < sum_list (map weight tasks)"
proof (induction tasks)
  case Nil
  then show ?case by simp
next
  case (Cons t ts)
  show ?case
  proof (cases "ts = []")
    case True
    then show ?thesis by (simp add: weight_node [of t])
  next
    case False
    with Cons.IH show ?thesis by (simp add: weight_node [of t])
  qed
qed

termination levels
  by (relation "measure (\<lambda>ts. sum_list (map weight ts))")
     (auto simp: weight_subtasks_concat)

declare levels.simps [simp del]

fun preorder :: "tree \<Rightarrow> tree list" where
  "preorder (Tree (MkTask i p c sts r rv)) =
     Tree (MkTask i p c sts r rv) # concat (map preorder sts)"

text \<open>
  What a task's run or revert function returns on given values; a task that always
  succeeds has a run function that returns a value and a nil error on every input; a task
  is reverted when it carries a revert function.
\<close>

definition run_at :: "tree \<Rightarrow> val list \<Rightarrow> ret" where
  "run_at task vals =
     (case Run_fn (node task) of None \<Rightarrow> Panic | Some f \<Rightarrow> f (Context (node task)) vals)"

definition always_succeeds :: "tree \<Rightarrow> bool" where
  "always_succeeds task \<longleftrightarrow>
     (\<exists>f. Run_fn (node task) = Some f \<and> (\<forall>c vals. \<exists>v. f c vals = Ok v))"

definition revert_at :: "tree \<Rightarrow> val list \<Rightarrow> ret" where
  "revert_at task vals =
     (case Revert_fn (node task) of None \<Rightarrow> Ok VNil | Some f \<Rightarrow> f (Context (node task)) vals)"

definition reverted :: "tree \<Rightarrow> bool" where
  "reverted task \<longleftrightarrow> Revert_fn (node task) \<noteq> None"

text \<open>
  \<open>hush\<close> replaces, in a whole tree, every revert function by one that returns a nil error
  where the original returned an error.
\<close>

definition quiet :: "TaskFunc \<Rightarrow> TaskFunc" where
  "quiet f c vals = (case f c vals of Err e \<Rightarrow> Ok VNil | r \<Rightarrow> r)"

fun hush :: "tree \<Rightarrow> tree" where
  "hush (Tree (MkTask i p c sts r rv)) = Tree (MkTask i p c (map hush sts) r (map_option quiet rv))"

section \<open>Scenarios\<close>

text \<open>
  The three run functions of the test \<^verbatim>\<open>TestSimpleTaskChain\<close> and the test's construction of
  the chain, run on the tree of \<^verbatim>\<open>task\<close>. \<^verbatim>\<open>values[0].(int)\<close> and \<^verbatim>\<open>values[1].(int)\<close> panic
  on a short slice and on a value that is not an int.
\<close>

definition chain_task :: TaskFunc where
  "chain_task c values = Ok (VInt 1)"

definition chain_foo :: TaskFunc where
  "chain_foo c values = (case values of VInt num # _ \<Rightarrow> Ok (VInt (2 + num)) | _ \<Rightarrow> Panic)"

definition chain_bar :: TaskFunc where
  "chain_bar c values = (case values of _ # VInt num # _ \<Rightarrow> Ok (VInt (3 + num)) | _ \<Rightarrow> Panic)"

definition TestSimpleTaskChain :: "(error + val list) go \<times> event list" where
  "TestSimpleTaskChain =
     (case New [] [WithFunc chain_task] init of (task, s1) \<Rightarrow>
     (case New [] [WithFunc chain_foo] s1 of (foo, s2) \<Rightarrow>
     (case New [] [WithFunc chain_bar] s2 of (bar, s3) \<Rightarrow>
     (case AddSubtasks foo [bar] s3 of Panicking \<Rightarrow> (Panicking, []) | Return s4 \<Rightarrow>
     (case AddSubtasks task [foo] s4 of Panicking \<Rightarrow> (Panicking, []) | Return s5 \<Rightarrow>
     (case reify 3 (heap s5) task of None \<Rightarrow> (Panicking, []) | Some root \<Rightarrow>
        Run [root] []))))))"

text \<open>
  Task literals: \<open>named\<close> is a task without revert function whose run returns its own
  name; \<open>job\<close> is a task whose run function returns \<open>r\<close> and whose revert function, when
  given, returns \<open>u\<close>, on every input.
\<close>

definition named :: "string \<Rightarrow> tree list \<Rightarrow> tree" where
  "named name sts = Tree (MkTask name [] [] sts (Some (\<lambda>c vals. Ok (VStr name))) None)"

definition job :: "string \<Rightarrow> ret \<Rightarrow> ret option \<Rightarrow> tree list \<Rightarrow> tree" where
  "job name r u sts =
     Tree (MkTask name [] [] sts (Some (\<lambda>c vals. r)) (map_option (\<lambda>x c vals. x) u))"

definition undo :: "ret option" where
  "undo = Some (Ok VNil)"

text \<open>A root with a subtree and a leaf below it.\<close>

definition fork :: tree where
  "fork = named ''A'' [named ''B'' [named ''D'' []], named ''C'' []]"

text \<open>A root whose first subtask fails, so that its second subtask is never run.\<close>

definition unwind_fork :: tree where
  "unwind_fork =
     job ''R'' (Ok (VStr ''r'')) undo
       [job ''X'' (Err (Error ''x failed'')) undo [], job ''Y'' (Ok (VStr ''y'')) undo []]"

text \<open>
  A root without revert function, above a task whose revert function fails and a task
  whose revert function succeeds.
\<close>

definition mixed :: tree where
  "mixed =
     job ''P'' (Ok VNil) None
       [job ''Q'' (Ok VNil) (Some (Err (Error ''undo failed''))) [job ''T'' (Ok VNil) undo []],
        job ''S'' (Ok VNil) undo []]"

text \<open>A chain of three tasks with revert functions; the run of the last one fails.\<close>

definition failing_chain :: tree where
  "failing_chain =
     job ''A'' (Ok (VStr ''a'')) undo
       [job ''B'' (Ok (VStr ''b'')) undo
          [job ''C'' (Err (Error ''boom'')) undo []]]"

text \<open>A task with a revert function and a subtask whose run fails.\<close>

definition failing_child :: tree where
  "failing_child =
     job ''A'' (Ok (VStr ''a'')) undo [job ''B'' (Err (Error ''boom'')) None []]"

text \<open>The same shape, with a revert function that fails.\<close>

definition failing_undo :: tree where
  "failing_undo =
     job ''A'' (Ok (VStr ''a'')) (Some (Err (Error ''undo failed'')))
       [job ''B'' (Err (Error ''boom'')) None []]"




text \<open>
  Contexts made with \<^verbatim>\<open>context.WithValue\<close> alone, without \<^verbatim>\<open>New\<close> or \<^verbatim>\<open>AddSubtasks\<close>:
  an entry bound by hand under \<^verbatim>\<open>CtxKey("ctx")\<close>, as the example in the comment of
  \<^verbatim>\<open>MustDecodeCtx\<close> does; the nil \<^verbatim>\<open>*TaskContext\<close> bound under that key; an entry bound under
  a key of another type; and a string bound under \<^verbatim>\<open>CtxKey("ctx")\<close>.
\<close>

definition hand_bound :: ctx where
  "hand_bound =
     WithValue [] (CtxKey ''ctx'') (PtrTaskContext (Some (TaskContext (Some 1) 0)))"

definition nil_bound :: ctx where
  "nil_bound = WithValue [] (CtxKey ''ctx'') (PtrTaskContext None)"

definition other_key :: ctx where
  "other_key =
     WithValue [] (OtherKey ''ctx'') (PtrTaskContext (Some (TaskContext None 0)))"

definition plain_bound :: ctx where
  "plain_bound = WithValue [] (CtxKey ''ctx'') (Plain (VStr ''ctx''))"

text \<open>Two tasks built one after the other, neither attached.\<close>

definition two_tasks :: state where
  "two_tasks = snd (New [] [] (snd (New [] [] init)))"

section \<open>Results of a run\<close>

text \<open>A queue loop takes the tasks off level by level.\<close>

lemma queue_order_append:
  "queue_order (tasks @ extra) =
     tasks @ queue_order (extra @ concat (map (\<lambda>t. Subtasks (node t)) tasks))"
proof (induction tasks arbitrary: extra)
  case Nil
  then show ?case by simp
next
  case (Cons t ts)
  have "queue_order ((t # ts) @ extra) = t # queue_order (ts @ (extra @ Subtasks (node t)))"
    by simp
  also have "\<dots> = t # ts @ queue_order ((extra @ Subtasks (node t)) @ concat (map (\<lambda>t. Subtasks (node t)) ts))"
    by (simp only: Cons.IH)
  finally show ?case by simp
qed

lemma queue_order_levels: "queue_order tasks = levels tasks"
proof (induction tasks rule: levels.induct)
  case (1 tasks)
  show ?case
  proof (cases "tasks = []")
    case True
    then show ?thesis by (simp add: levels.simps)
  next
    case False
    have "queue_order tasks = tasks @ queue_order (concat (map (\<lambda>t. Subtasks (node t)) tasks))"
      using queue_order_append [of tasks "[]"] by simp
    also have "\<dots> = tasks @ levels (concat (map (\<lambda>t. Subtasks (node t)) tasks))"
      using "1.IH" [OF False] by simp
    also have "\<dots> = levels tasks"
      using False by (simp add: levels.simps [of tasks])
    finally show ?thesis .
  qed
qed

text \<open>
  A run that returns a result has called the tasks in queue order, each with the initial
  values followed by the values produced before it, and returns the values they produced.
\<close>

lemma Run_loop_results:
  "fst (Run_loop tasks vals result succ) = Return (Inr out) \<Longrightarrow>
     \<exists>res. out = result @ res \<and> length res = length (queue_order tasks)
       \<and> (\<forall>i<length res. run_at (queue_order tasks ! i) (vals @ take i res) = Ok (res ! i))
       \<and> snd (Run_loop tasks vals result succ) =
           map (\<lambda>i. RunCall (ID (node (queue_order tasks ! i))) (vals @ take i res))
             [0..<length res]"
proof (induction tasks vals result succ arbitrary: out rule: Run_loop.induct)
  case (1 vals result successfulTasks)
  then show ?case by simp
next
  case (2 task tasks vals result successfulTasks)
  from "2.prems" obtain f where f: "Run_fn (node task) = Some f"
    by (auto split: option.splits)
  from "2.prems" f obtain v where v: "f (Context (node task)) vals = Ok v"
    by (cases "f (Context (node task)) vals") (auto simp: emit_def split: prod.splits go.splits)
  let ?rest = "Run_loop (tasks @ Subtasks (node task)) (vals @ [v]) (result @ [v])
                 (task # successfulTasks)"
  have unfold: "Run_loop (task # tasks) vals result successfulTasks =
                  emit (RunCall (ID (node task)) vals) ?rest"
    using f v by simp
  with "2.prems" have "fst ?rest = Return (Inr out)" by (simp add: emit_def)
  from "2.IH" [OF f v this] obtain res where
    out: "out = (result @ [v]) @ res"
    and len: "length res = length (queue_order (tasks @ Subtasks (node task)))"
    and at: "\<forall>i<length res. run_at (queue_order (tasks @ Subtasks (node task)) ! i)
                ((vals @ [v]) @ take i res) = Ok (res ! i)"
    and evs: "snd ?rest =
                map (\<lambda>i. RunCall (ID (node (queue_order (tasks @ Subtasks (node task)) ! i)))
                       ((vals @ [v]) @ take i res)) [0..<length res]"
    by blast
  let ?res = "v # res"
  have "out = result @ ?res" using out by simp
  moreover have "length ?res = length (queue_order (task # tasks))" using len by simp
  moreover have "\<forall>i<length ?res. run_at (queue_order (task # tasks) ! i) (vals @ take i ?res)
                   = Ok (?res ! i)"
  proof (intro allI impI)
    fix i assume i: "i < length ?res"
    show "run_at (queue_order (task # tasks) ! i) (vals @ take i ?res) = Ok (?res ! i)"
    proof (cases i)
      case 0
      then show ?thesis using f v by (simp add: run_at_def)
    next
      case (Suc j)
      with i at show ?thesis by simp
    qed
  qed
  moreover have "snd (Run_loop (task # tasks) vals result successfulTasks) =
      map (\<lambda>i. RunCall (ID (node (queue_order (task # tasks) ! i))) (vals @ take i ?res))
        [0..<length ?res]"
  proof -
    have "[0..<length ?res] = 0 # map Suc [0..<length res]"
      by (simp add: upt_conv_Cons map_Suc_upt del: upt_Suc)
    moreover have "snd (Run_loop (task # tasks) vals result successfulTasks) =
        RunCall (ID (node task)) vals # snd ?rest"
      by (simp only: unfold emit_def snd_conv)
    ultimately show ?thesis
      by (simp add: evs comp_def del: upt_Suc Run_loop.simps)
  qed
  ultimately show ?case by blast
qed

lemma Run_loop_succeeds:
  "\<forall>t\<in>set (queue_order tasks). always_succeeds t \<Longrightarrow>
     \<exists>out. fst (Run_loop tasks vals result succ) = Return (Inr out)"
proof (induction tasks vals result succ rule: Run_loop.induct)
  case (1 vals result successfulTasks)
  then show ?case by simp
next
  case (2 task tasks vals result successfulTasks)
  from "2.prems" have "always_succeeds task" by simp
  then obtain f v where f: "Run_fn (node task) = Some f"
    and v: "f (Context (node task)) vals = Ok v"
    unfolding always_succeeds_def by blast
  from "2.prems" have "\<forall>t\<in>set (queue_order (tasks @ Subtasks (node task))). always_succeeds t"
    by simp
  from "2.IH" [OF f v this] show ?case
    using f v by (simp add: emit_def)
qed

text \<open>The level order lists the tasks that pre-order lists, each as often.\<close>

lemma preorder_node: "preorder task = task # concat (map preorder (Subtasks (node task)))"
proof (cases task)
  case (Tree t)
  then show ?thesis by (cases t) simp
qed

lemma mset_preorder_level:
  "mset (concat (map preorder tasks)) =
     mset tasks + mset (concat (map preorder (concat (map (\<lambda>t. Subtasks (node t)) tasks))))"
proof (induction tasks)
  case Nil
  then show ?case by simp
next
  case (Cons t ts)
  have "mset (concat (map preorder (t # ts))) =
          mset (preorder t) + mset (concat (map preorder ts))"
    by simp
  also have "mset (preorder t) = {#t#} + mset (concat (map preorder (Subtasks (node t))))"
    by (subst preorder_node) simp
  finally show ?case using Cons.IH by simp
qed

lemma mset_levels: "mset (levels tasks) = mset (concat (map preorder tasks))"
proof (induction tasks rule: levels.induct)
  case (1 tasks)
  show ?case
  proof (cases "tasks = []")
    case True
    then show ?thesis by (simp add: levels.simps)
  next
    case False
    have "mset (levels tasks) =
            mset tasks + mset (levels (concat (map (\<lambda>t. Subtasks (node t)) tasks)))"
      using False by (simp add: levels.simps [of tasks])
    also have "\<dots> = mset tasks +
            mset (concat (map preorder (concat (map (\<lambda>t. Subtasks (node t)) tasks))))"
      using "1.IH" [OF False] by simp
    also have "\<dots> = mset (concat (map preorder tasks))"
      by (rule mset_preorder_level [symmetric])
    finally show ?thesis .
  qed
qed

text \<open>
  Claim C1, as the code has it. The order of the results is breadth-first, not pre-order.
  The level order of a forest lists exactly its tasks. If every task of the forest always
  succeeds, Run returns a result. A result Run returns holds exactly one value per task,
  in level order: the \<open>i\<close>-th value is what the run function of the \<open>i\<close>-th task returned,
  called once, with the initial values followed by the \<open>i\<close> values produced before it.
\<close>

theorem Run_level_order:
  "mset (levels tasks) = mset (concat (map preorder tasks))
   \<and> ((\<forall>t\<in>set (levels tasks). always_succeeds t) \<longrightarrow>
        (\<exists>res. fst (Run tasks vals) = Return (Inr res)))
   \<and> (fst (Run tasks vals) = Return (Inr res) \<longrightarrow>
        length res = length (levels tasks)
        \<and> (\<forall>i<length res. run_at (levels tasks ! i) (vals @ take i res) = Ok (res ! i))
        \<and> snd (Run tasks vals) =
            map (\<lambda>i. RunCall (ID (node (levels tasks ! i))) (vals @ take i res))
              [0..<length res])"
proof (intro conjI impI)
  show "mset (levels tasks) = mset (concat (map preorder tasks))"
    by (rule mset_levels)
next
  assume "\<forall>t\<in>set (levels tasks). always_succeeds t"
  then have "\<forall>t\<in>set (queue_order tasks). always_succeeds t"
    by (simp add: queue_order_levels)
  from Run_loop_succeeds [OF this] show "\<exists>res. fst (Run tasks vals) = Return (Inr res)"
    by (simp add: Run_def)
next
  assume "fst (Run tasks vals) = Return (Inr res)"
  then have "fst (Run_loop tasks vals [] []) = Return (Inr res)"
    by (simp add: Run_def)
  from Run_loop_results [OF this]
  have r: "length res = length (levels tasks)
       \<and> (\<forall>i<length res. run_at (levels tasks ! i) (vals @ take i res) = Ok (res ! i))
       \<and> snd (Run tasks vals) =
            map (\<lambda>i. RunCall (ID (node (levels tasks ! i))) (vals @ take i res))
              [0..<length res]"
    by (auto simp: queue_order_levels Run_def)
  from r show "length res = length (levels tasks)" by blast
  from r show "\<forall>i<length res. run_at (levels tasks ! i) (vals @ take i res) = Ok (res ! i)"
    by blast
  from r show "snd (Run tasks vals) =
            map (\<lambda>i. RunCall (ID (node (levels tasks ! i))) (vals @ take i res))
              [0..<length res]" by blast
qed

text \<open>
  The forest of one root \<open>A\<close> with subtasks \<open>B\<close> and \<open>C\<close>, where \<open>B\<close> has the subtask
  \<open>D\<close>: every task always succeeds, and the results come level by level.
\<close>

lemma fork_order:
  "queue_order [fork] = [fork, named ''B'' [named ''D'' []], named ''C'' [], named ''D'' []]"
  by (simp add: fork_def named_def)

theorem Run_level_order_witness:
  "list_all always_succeeds (levels [fork])
   \<and> fst (Run [fork] []) = Return (Inr [VStr ''A'', VStr ''B'', VStr ''C'', VStr ''D''])
   \<and> map (\<lambda>t. ID (node t)) (levels [fork]) = [''A'', ''B'', ''C'', ''D'']
   \<and> length [VStr ''A'', VStr ''B'', VStr ''C'', VStr ''D''] = length (levels [fork])
   \<and> snd (Run [fork] []) =
       [RunCall ''A'' [], RunCall ''B'' [VStr ''A''], RunCall ''C'' [VStr ''A'', VStr ''B''],
        RunCall ''D'' [VStr ''A'', VStr ''B'', VStr ''C'']]"
proof -
  have lv: "levels [fork] = [fork, named ''B'' [named ''D'' []], named ''C'' [], named ''D'' []]"
    using fork_order by (simp only: queue_order_levels)
  have ok: "\<forall>t\<in>set (levels [fork]). always_succeeds t"
    unfolding lv by (simp add: always_succeeds_def fork_def named_def)
  have run: "fst (Run [fork] []) = Return (Inr [VStr ''A'', VStr ''B'', VStr ''C'', VStr ''D''])"
    by (simp add: Run_def fork_def named_def emit_def)
  from Run_level_order [of "[fork]" "[]" "[VStr ''A'', VStr ''B'', VStr ''C'', VStr ''D'']"]
    ok run
  have "snd (Run [fork] []) =
          map (\<lambda>i. RunCall (ID (node (levels [fork] ! i)))
                 ([] @ take i [VStr ''A'', VStr ''B'', VStr ''C'', VStr ''D'']))
            [0..<length [VStr ''A'', VStr ''B'', VStr ''C'', VStr ''D'']]"
    by blast
  then have "snd (Run [fork] []) =
       [RunCall ''A'' [], RunCall ''B'' [VStr ''A''], RunCall ''C'' [VStr ''A'', VStr ''B''],
        RunCall ''D'' [VStr ''A'', VStr ''B'', VStr ''C'']]"
    unfolding lv by (simp add: fork_def named_def upt_conv_Cons del: upt_Suc)
  moreover have "map (\<lambda>t. ID (node t)) (levels [fork]) = [''A'', ''B'', ''C'', ''D'']"
    unfolding lv by (simp add: fork_def named_def)
  moreover have "length (levels [fork]) = 4"
    unfolding lv by simp
  ultimately show ?thesis using ok run by (simp add: list_all_iff)
qed

text \<open>
  On that forest pre-order is \<open>A\<close>, \<open>B\<close>, \<open>D\<close>, \<open>C\<close>, and each task returns its own name
  whatever it is given; Run returns \<open>A\<close>, \<open>B\<close>, \<open>C\<close>, \<open>D\<close>.
\<close>

theorem Run_not_preorder:
  "fst (Run [fork] []) = Return (Inr [VStr ''A'', VStr ''B'', VStr ''C'', VStr ''D''])
   \<and> map (\<lambda>t. run_at t []) (preorder fork) =
       [Ok (VStr ''A''), Ok (VStr ''B''), Ok (VStr ''D''), Ok (VStr ''C'')]
   \<and> fst (Run [fork] []) \<noteq> Return (Inr [VStr ''A'', VStr ''B'', VStr ''D'', VStr ''C''])"
  by (simp add: Run_def fork_def named_def emit_def run_at_def)

text \<open>
  Claim C9. Run with an empty task sequence returns, for every sequence of initial values,
  a nil error and an empty result, and calls no run or revert function.
\<close>

theorem Run_empty: "Run [] values = (Return (Inr []), [])"
  by (simp add: Run_def)

text \<open>
  Claim C7. In the chain of the test, where \<^verbatim>\<open>task\<close> returns 1, its subtask \<^verbatim>\<open>foo\<close> adds 2
  to the value it reads and \<^verbatim>\<open>bar\<close>, the subtask of \<^verbatim>\<open>foo\<close>, adds 3, Run on the root with no
  initial values returns the results 1, 3, 6 and a nil error. Each of \<^verbatim>\<open>foo\<close> and \<^verbatim>\<open>bar\<close> reads
  the last value of the slice it is called with. The IDs are those of a fresh counter.
\<close>

theorem TestSimpleTaskChain_result:
  "TestSimpleTaskChain =
     (Return (Inr [VInt 1, VInt 3, VInt 6]),
      [RunCall ''task_0'' [], RunCall ''task_1'' [VInt 1],
       RunCall ''task_2'' [VInt 1, VInt 3]])"
  by (simp add: TestSimpleTaskChain_def New_def New_build_def init_def Sprintf_d_def
      counter_Add_def WithFunc_def WithValue_def set_Run_def set_Context_def set_Subtasks_def
      AddSubtasks_def Run_def chain_task_def chain_foo_def chain_bar_def emit_def
      eval_nat_numeral)

section \<open>Compensation\<close>

lemma Revert_queue_order:
  "\<forall>t\<in>set (queue_order tasks). revert_at t vals \<noteq> Panic \<Longrightarrow>
     Revert tasks vals =
       (Return (), map (\<lambda>t. RevertCall (ID (node t)) vals) (filter reverted (queue_order tasks)))"
proof (induction tasks vals rule: Revert.induct)
  case (1 vals)
  then show ?case by simp
next
  case (2 task tasks vals)
  from "2.prems" have rest: "\<forall>t\<in>set (queue_order (tasks @ Subtasks (node task))). revert_at t vals \<noteq> Panic"
    by simp
  show ?case
  proof (cases "Revert_fn (node task)")
    case None
    with "2.IH"(1) [OF None rest] show ?thesis by (simp add: reverted_def)
  next
    case (Some f)
    from "2.prems" Some have np: "f (Context (node task)) vals \<noteq> Panic"
      by (simp add: revert_at_def)
    show ?thesis
    proof (cases "f (Context (node task)) vals")
      case (Ok v)
      with "2.IH"(2) [OF Some Ok rest] Some show ?thesis by (simp add: reverted_def emit_def)
    next
      case (Err e)
      with "2.IH"(3) [OF Some Err rest] Some show ?thesis by (simp add: reverted_def emit_def)
    next
      case Panic
      with np show ?thesis by simp
    qed
  qed
qed

text \<open>
  Claim C8, as the code has it. Revert visits every task handed to it and then, level by
  level, every subtask of a visited task, whether or not that subtask ever ran or
  succeeded. It calls the revert function of each visited task that carries one, with the
  values it was given. A task without revert function and a revert function that returns
  an error do not stop the pass, which returns normally unless a revert function panics.
\<close>

theorem Revert_level_order:
  "\<forall>t\<in>set (levels tasks). revert_at t vals \<noteq> Panic \<Longrightarrow>
     Revert tasks vals =
       (Return (), map (\<lambda>t. RevertCall (ID (node t)) vals) (filter reverted (levels tasks)))"
  using Revert_queue_order [of tasks vals] by (simp add: queue_order_levels)

text \<open>
  A pass over a root without revert function: the pass goes on to its subtasks, and on
  past the revert function of \<open>Q\<close> that fails.
\<close>

lemma mixed_order:
  "queue_order [mixed] =
     [mixed,
      job ''Q'' (Ok VNil) (Some (Err (Error ''undo failed''))) [job ''T'' (Ok VNil) undo []],
      job ''S'' (Ok VNil) undo [],
      job ''T'' (Ok VNil) undo []]"
  by (simp add: mixed_def job_def)

theorem Revert_level_order_witness:
  "list_all (\<lambda>t. revert_at t [VInt 7] \<noteq> Panic) (levels [mixed])
   \<and> Revert [mixed] [VInt 7] =
       (Return (), [RevertCall ''Q'' [VInt 7], RevertCall ''S'' [VInt 7], RevertCall ''T'' [VInt 7]])"
proof -
  have lv: "levels [mixed] =
     [mixed,
      job ''Q'' (Ok VNil) (Some (Err (Error ''undo failed''))) [job ''T'' (Ok VNil) undo []],
      job ''S'' (Ok VNil) undo [],
      job ''T'' (Ok VNil) undo []]"
    using mixed_order by (simp only: queue_order_levels)
  have np: "\<forall>t\<in>set (levels [mixed]). revert_at t [VInt 7] \<noteq> Panic"
    unfolding lv by (simp add: revert_at_def mixed_def job_def undo_def)
  from Revert_level_order [OF np]
  have "Revert [mixed] [VInt 7] =
          (Return (), map (\<lambda>t. RevertCall (ID (node t)) [VInt 7]) (filter reverted (levels [mixed])))" .
  also have "map (\<lambda>t. RevertCall (ID (node t)) [VInt 7]) (filter reverted (levels [mixed])) =
          [RevertCall ''Q'' [VInt 7], RevertCall ''S'' [VInt 7], RevertCall ''T'' [VInt 7]]"
    unfolding lv by (simp add: reverted_def mixed_def job_def undo_def)
  finally show ?thesis using np by (simp add: list_all_iff)
qed

text \<open>
  The run of \<open>X\<close> fails and \<open>Y\<close> is never run: \<open>R\<close> is the only task that succeeded.
  The pass calls the revert functions of \<open>X\<close> and \<open>Y\<close> all the same.
\<close>

theorem Revert_enters_unsucceeded:
  "Run [unwind_fork] [] =
     (Return (Inl (Error ''x failed'')),
      [RunCall ''R'' [], RunCall ''X'' [VStr ''r''],
       RevertCall ''R'' [VStr ''r''], RevertCall ''X'' [VStr ''r''],
       RevertCall ''Y'' [VStr ''r'']])"
  by (simp add: Run_def unwind_fork_def job_def undo_def emit_def)

text \<open>A revert function that fails is as good as one that succeeds.\<close>

lemma hush_node:
  "node (hush task) =
     MkTask (ID (node task)) (Parameters (node task)) (Context (node task))
       (map hush (Subtasks (node task))) (Run_fn (node task)) (map_option quiet (Revert_fn (node task)))"
proof (cases task)
  case (Tree t)
  then show ?thesis by (cases t) simp
qed

lemma Revert_hush: "Revert (map hush tasks) vals = Revert tasks vals"
proof (induction tasks vals rule: Revert.induct)
  case (1 vals)
  then show ?case by simp
next
  case (2 task tasks vals)
  show ?case
  proof (cases "Revert_fn (node task)")
    case None
    with "2.IH"(1) [OF None] show ?thesis by (simp add: hush_node)
  next
    case (Some f)
    show ?thesis
    proof (cases "f (Context (node task)) vals")
      case (Ok v)
      with "2.IH"(2) [OF Some Ok] Some show ?thesis by (simp add: hush_node quiet_def)
    next
      case (Err e)
      with "2.IH"(3) [OF Some Err] Some show ?thesis by (simp add: hush_node quiet_def)
    next
      case Panic
      with Some show ?thesis by (simp add: hush_node quiet_def)
    qed
  qed
qed

lemma Run_loop_hush:
  "Run_loop (map hush tasks) vals result (map hush succ) = Run_loop tasks vals result succ"
proof (induction tasks vals result succ rule: Run_loop.induct)
  case (1 vals result successfulTasks)
  then show ?case by simp
next
  case (2 task tasks vals result successfulTasks)
  show ?case
  proof (cases "Run_fn (node task)")
    case None
    then show ?thesis by (simp add: hush_node)
  next
    case (Some f)
    show ?thesis
    proof (cases "f (Context (node task)) vals")
      case (Ok v)
      with "2.IH" [OF Some Ok] Some show ?thesis by (simp add: hush_node)
    next
      case (Err e)
      with Some show ?thesis by (simp add: hush_node Revert_hush)
    next
      case Panic
      with Some show ?thesis by (simp add: hush_node)
    qed
  qed
qed

text \<open>
  Claim C4, as the code has it. The failures of revert functions are dropped: with every
  such failure replaced by success, a compensation pass makes the same calls and ends the
  same way, and Run returns the same outcome, which is the error of the failed run and
  nothing of the failed reverts.
\<close>

theorem Revert_errors_dropped:
  "Revert (map hush tasks) vals = Revert tasks vals
   \<and> Run (map hush tasks) vals = Run tasks vals"
  using Run_loop_hush [of tasks vals "[]" "[]"] by (simp add: Revert_hush Run_def)

text \<open>
  The revert function of \<open>A\<close> returns an error. The pass over \<open>A\<close> returns no error, and
  Run returns the error of \<open>B\<close> alone.
\<close>

theorem Revert_error_lost:
  "revert_at failing_undo [VStr ''a''] = Err (Error ''undo failed'')
   \<and> Revert [failing_undo] [VStr ''a''] =
       (Return (), [RevertCall ''A'' [VStr ''a'']])
   \<and> Run [failing_undo] [] =
       (Return (Inl (Error ''boom'')),
        [RunCall ''A'' [], RunCall ''B'' [VStr ''a''], RevertCall ''A'' [VStr ''a'']])"
  by (simp add: Run_def failing_undo_def job_def revert_at_def emit_def)

text \<open>
  Claim C2: when a run function fails, Run returns an error and no result, and the revert
  function of every task that succeeded is called exactly once, and of no other task.
  The code at the chain \<open>A\<close>, \<open>B\<close>, \<open>C\<close> where the run of \<open>C\<close> fails: the error and no
  result are returned, but the revert function of \<open>B\<close> is called twice and that of \<open>C\<close>,
  which never succeeded, is called twice as well.
\<close>

theorem Run_reverts_twice:
  "Run [failing_chain] [] =
     (Return (Inl (Error ''boom'')),
      [RunCall ''A'' [], RunCall ''B'' [VStr ''a''], RunCall ''C'' [VStr ''a'', VStr ''b''],
       RevertCall ''B'' [VStr ''a'', VStr ''b''], RevertCall ''A'' [VStr ''a'', VStr ''b''],
       RevertCall ''C'' [VStr ''a'', VStr ''b''], RevertCall ''B'' [VStr ''a'', VStr ''b''],
       RevertCall ''C'' [VStr ''a'', VStr ''b'']])"
  by (simp add: Run_def failing_chain_def job_def undo_def emit_def)

text \<open>
  Claim C3: every revert function is called with the initial values given to Run. The
  code at a task \<open>A\<close> that produces \<open>a\<close> and whose subtask fails, run with the one initial
  value \<open>initial\<close>: the revert function of \<open>A\<close> is called with \<open>initial\<close> and \<open>a\<close>.
\<close>

theorem Run_reverts_with_produced_values:
  "Run [failing_child] [VStr ''initial''] =
     (Return (Inl (Error ''boom'')),
      [RunCall ''A'' [VStr ''initial''], RunCall ''B'' [VStr ''initial'', VStr ''a''],
       RevertCall ''A'' [VStr ''initial'', VStr ''a'']])"
  by (simp add: Run_def failing_child_def job_def undo_def emit_def)

section \<open>The caller's slice\<close>


text \<open>
  The loop keeps the queue equal to the window it reads through: at the start, and after
  a step that clears the head and appends in place.
\<close>

lemma length_store: "i + length xs \<le> length array \<Longrightarrow> length (store array i xs) = length array"
  by (simp add: store_def)


lemma window_start: "n \<le> length array \<Longrightarrow> window array (Some 0) (take n array)"
  by (simp add: window_def)

lemma window_head:
  assumes "window array (Some i) (t # tasks)"
  shows "i < length array" and "array ! i = t"
    and "take (length tasks) (drop (Suc i) array) = tasks"
proof -
  from assms have le: "i + Suc (length tasks) \<le> length array"
    and tk: "take (Suc (length tasks)) (drop i array) = t # tasks"
    by (simp_all add: window_def)
  from le show i: "i < length array" by simp
  then have d: "drop i array = array ! i # drop (Suc i) array"
    by (simp add: Cons_nth_drop_Suc)
  from tk d show "array ! i = t" by simp
  from tk d show "take (length tasks) (drop (Suc i) array) = tasks" by simp
qed

lemma window_step:
  assumes w: "window array (Some i) (t # tasks)"
    and fits: "Suc i + length tasks + length subs \<le> length array"
  shows "window (store (array[i := x]) (Suc i + length tasks) subs) (Some (Suc i)) (tasks @ subs)"
proof -
  let ?A = "array[i := x]"
  let ?p = "Suc i + length tasks"
  have tl: "take (length tasks) (drop (Suc i) ?A) = tasks"
    using window_head(3) [OF w] by (simp add: drop_update_cancel)
  have "drop (Suc i) (store ?A ?p subs) = drop (Suc i) (take ?p ?A) @ subs @ drop (?p + length subs) ?A"
    using fits by (simp add: store_def)
  also have "drop (Suc i) (take ?p ?A) = take (length tasks) (drop (Suc i) ?A)"
    by (simp add: drop_take)
  finally have "drop (Suc i) (store ?A ?p subs) = tasks @ subs @ drop (?p + length subs) ?A"
    using tl by simp
  then have "take (length (tasks @ subs)) (drop (Suc i) (store ?A ?p subs)) = tasks @ subs"
    by simp
  moreover have "Suc i + length (tasks @ subs) \<le> length (store ?A ?p subs)"
    using fits by (simp add: length_store)
  ultimately show ?thesis by (simp add: window_def)
qed









section \<open>Construction and the context chain\<close>

lemma Context_set_Context [simp]: "Context (set_Context c t) = c"
  by (simp add: set_Context_def)

lemma Context_set_Subtasks [simp]: "Context (set_Subtasks sts t) = Context t"
  by (simp add: set_Subtasks_def)

lemma DecodeCtx_WithValue [simp]:
  "DecodeCtx (WithValue c (CtxKey ''ctx'') (PtrTaskContext tc)) = Inr tc"
  by (simp add: DecodeCtx_def Value_def WithValue_def)

lemma DecodeCtx_unbound:
  "CtxKey ''ctx'' \<notin> fst ` set c \<Longrightarrow> DecodeCtx c = Inl (Error ''no context found'')"
  by (simp add: DecodeCtx_def Value_def map_of_eq_None_iff [THEN iffD2])

lemma New_fst: "fst (New c cfgs s) = length (heap s)"
  by (simp add: New_def New_build_def Let_def)

lemma New_heap:
  "heap (snd (New c cfgs s)) =
     heap s @ [set_Context (WithValue c (CtxKey ''ctx'')
                 (PtrTaskContext (Some (TaskContext None (length (heap s))))))
               (foldl (\<lambda>obj cfg. cfg obj)
                  (MkTask (''task_'' @ Sprintf_d (sint (counter s))) [] [] [] None None) cfgs)]"
  by (simp add: New_def New_build_def Let_def counter_Add_def)

lemma New_own_context:
  "DecodeCtx (Context (heap (snd (New c cfgs s)) ! fst (New c cfgs s))) =
     Inr (Some (TaskContext None (fst (New c cfgs s))))"
  by (simp add: New_fst New_heap)

lemma rebind_length: "rebind t st h = Return h' \<Longrightarrow> length h' = length h"
  by (induction st arbitrary: h) (auto split: if_splits)

lemma rebind_allocated: "rebind t st h = Return h' \<Longrightarrow> p \<in> set st \<Longrightarrow> p < length h"
proof (induction st arbitrary: h)
  case Nil
  then show ?case by simp
next
  case (Cons subtask st)
  show ?case
  proof (cases "p = subtask")
    case True
    with Cons.prems(1) show ?thesis by (simp split: if_splits)
  next
    case False
    with Cons.prems have "p \<in> set st" by simp
    moreover from Cons.prems(1) obtain h1 where "rebind t st h1 = Return h'"
      and "length h1 = length h"
      by (auto split: if_splits)
    ultimately show ?thesis using Cons.IH [of h1] by simp
  qed
qed

lemma rebind_contexts:
  "rebind t st h = Return h' \<Longrightarrow> p < length h \<Longrightarrow>
     (if p \<in> set st
      then DecodeCtx (Context (h' ! p)) = Inr (Some (TaskContext (Some t) p))
      else h' ! p = h ! p)"
proof (induction st arbitrary: h)
  case Nil
  then show ?case by simp
next
  case (Cons subtask st)
  let ?h1 = "h[subtask := set_Context
                 (WithValue (Context (h ! t)) (CtxKey ''ctx'')
                    (PtrTaskContext (Some (TaskContext (Some t) subtask))))
                 (h ! subtask)]"
  from Cons.prems have ok: "t < length h" "subtask < length h" and r: "rebind t st ?h1 = Return h'"
    by (auto split: if_splits)
  from Cons.prems(2) have p1: "p < length ?h1" by simp
  note IH = Cons.IH [OF r p1]
  show ?case
  proof (cases "p \<in> set st")
    case True
    with IH show ?thesis by simp
  next
    case False
    with IH have eq: "h' ! p = ?h1 ! p" by simp
    show ?thesis
    proof (cases "p = subtask")
      case True
      with eq ok show ?thesis by simp
    next
      case False
      with eq \<open>p \<notin> set st\<close> show ?thesis by simp
    qed
  qed
qed

lemma AddSubtasks_heap:
  assumes "AddSubtasks t st s = Return s'"
  obtains h where "rebind t st (heap s) = Return h" and "t < length h"
    and "heap s' = h[t := set_Subtasks (Subtasks (h ! t) @ st) (h ! t)]"
  using assms by (auto simp: AddSubtasks_def split: go.splits if_splits)

lemma AddSubtasks_length:
  assumes "AddSubtasks t st s = Return s'"
  shows "length (heap s') = length (heap s)"
  using assms by (elim AddSubtasks_heap) (simp add: rebind_length)

lemma AddSubtasks_subtask:
  assumes "AddSubtasks t st s = Return s'" and "p \<in> set st"
  shows "DecodeCtx (Context (heap s' ! p)) = Inr (Some (TaskContext (Some t) p))"
proof -
  from assms(1) obtain h where h: "rebind t st (heap s) = Return h" and t: "t < length h"
    and s': "heap s' = h[t := set_Subtasks (Subtasks (h ! t) @ st) (h ! t)]"
    by (rule AddSubtasks_heap)
  have p: "p < length (heap s)" using h assms(2) by (rule rebind_allocated)
  have "Context (heap s' ! p) = Context (h ! p)"
    using p t rebind_length [OF h] by (cases "p = t") (simp_all add: s')
  with rebind_contexts [OF h p] assms(2) show ?thesis by simp
qed

lemma AddSubtasks_other:
  assumes "AddSubtasks t st s = Return s'" and "p < length (heap s)" and "p \<notin> set st"
  shows "Context (heap s' ! p) = Context (heap s ! p)"
proof -
  from assms(1) obtain h where h: "rebind t st (heap s) = Return h" and t: "t < length h"
    and s': "heap s' = h[t := set_Subtasks (Subtasks (h ! t) @ st) (h ! t)]"
    by (rule AddSubtasks_heap)
  have "Context (heap s' ! p) = Context (h ! p)"
    using assms(2) t rebind_length [OF h] by (cases "p = t") (simp_all add: s')
  with rebind_contexts [OF h assms(2)] assms(3) show ?thesis by simp
qed

lemma built_own_context:
  "built s \<Longrightarrow> p < length (heap s) \<Longrightarrow>
     \<exists>parent. DecodeCtx (Context (heap s ! p)) = Inr (Some (TaskContext parent p))"
proof (induction arbitrary: p rule: built.induct)
  case built_init
  then show ?case by (simp add: init_def)
next
  case (built_New s c cfgs)
  show ?case
  proof (cases "p < length (heap s)")
    case True
    with built_New.IH [of p] show ?thesis by (simp add: New_heap nth_append)
  next
    case False
    with built_New.prems have "p = length (heap s)" by (simp add: New_heap)
    then show ?thesis by (simp add: New_heap)
  qed
next
  case (built_AddSubtasks s t st s')
  from built_AddSubtasks.prems AddSubtasks_length [OF built_AddSubtasks.hyps(2)]
  have p: "p < length (heap s)" by simp
  show ?case
  proof (cases "p \<in> set st")
    case True
    with AddSubtasks_subtask [OF built_AddSubtasks.hyps(2)] show ?thesis by blast
  next
    case False
    with AddSubtasks_other [OF built_AddSubtasks.hyps(2) p] built_AddSubtasks.IH [OF p]
    show ?thesis by simp
  qed
qed

text \<open>
  Claim C6, as the code has it. In every state the builder reaches, decoding the context of
  a task succeeds and yields an entry whose \<^verbatim>\<open>Task\<close> is that task. The entry of a task
  returned by New has no parent, and New leaves the tasks built before as they are. After
  AddSubtasks the entry of each attached subtask has the attaching task as its parent, and
  the contexts of the tasks that were not attached are unchanged. Decoding looks at the
  value under \<^verbatim>\<open>CtxKey("ctx")\<close> only, not at who bound it: it returns the error
  \<^verbatim>\<open>no context found\<close> when nothing is bound under the key and when the value bound is not a
  \<^verbatim>\<open>*TaskContext\<close>, and it returns the bound pointer with a nil error otherwise.
\<close>

theorem DecodeCtx_of_built:
  assumes "built s"
  shows "(p < length (heap s) \<longrightarrow>
            (\<exists>parent. DecodeCtx (Context (heap s ! p)) = Inr (Some (TaskContext parent p))))
       \<and> DecodeCtx (Context (heap (snd (New c cfgs s)) ! fst (New c cfgs s))) =
            Inr (Some (TaskContext None (fst (New c cfgs s))))
       \<and> (p < length (heap s) \<longrightarrow> heap (snd (New c cfgs s)) ! p = heap s ! p)
       \<and> (AddSubtasks t st s = Return s' \<and> subtask \<in> set st \<longrightarrow>
            DecodeCtx (Context (heap s' ! subtask)) = Inr (Some (TaskContext (Some t) subtask)))
       \<and> (AddSubtasks t st s = Return s' \<and> p < length (heap s) \<and> p \<notin> set st \<longrightarrow>
            Context (heap s' ! p) = Context (heap s ! p))
       \<and> (Value c1 (CtxKey ''ctx'') = None \<longrightarrow> DecodeCtx c1 = Inl (Error ''no context found''))
       \<and> (Value c2 (CtxKey ''ctx'') = Some (Plain v) \<longrightarrow>
            DecodeCtx c2 = Inl (Error ''no context found''))
       \<and> (Value c3 (CtxKey ''ctx'') = Some (PtrTaskContext ptr) \<longrightarrow> DecodeCtx c3 = Inr ptr)"
proof (intro conjI impI)
  show "p < length (heap s) \<Longrightarrow>
          \<exists>parent. DecodeCtx (Context (heap s ! p)) = Inr (Some (TaskContext parent p))"
    using assms by (rule built_own_context)
  show "DecodeCtx (Context (heap (snd (New c cfgs s)) ! fst (New c cfgs s))) =
          Inr (Some (TaskContext None (fst (New c cfgs s))))"
    by (rule New_own_context)
  show "p < length (heap s) \<Longrightarrow> heap (snd (New c cfgs s)) ! p = heap s ! p"
    by (simp add: New_heap nth_append)
  show "AddSubtasks t st s = Return s' \<and> subtask \<in> set st \<Longrightarrow>
          DecodeCtx (Context (heap s' ! subtask)) = Inr (Some (TaskContext (Some t) subtask))"
    using AddSubtasks_subtask by blast
  show "AddSubtasks t st s = Return s' \<and> p < length (heap s) \<and> p \<notin> set st \<Longrightarrow>
          Context (heap s' ! p) = Context (heap s ! p)"
    using AddSubtasks_other by blast
  show "Value c1 (CtxKey ''ctx'') = None \<Longrightarrow> DecodeCtx c1 = Inl (Error ''no context found'')"
    by (simp add: DecodeCtx_def)
  show "Value c2 (CtxKey ''ctx'') = Some (Plain v) \<Longrightarrow>
          DecodeCtx c2 = Inl (Error ''no context found'')"
    by (simp add: DecodeCtx_def)
  show "Value c3 (CtxKey ''ctx'') = Some (PtrTaskContext ptr) \<Longrightarrow> DecodeCtx c3 = Inr ptr"
    by (simp add: DecodeCtx_def)
qed

text \<open>
  Two tasks are built and the second is attached to the first: the first stays a root and
  the second gets the first as its parent. A context that binds an entry under a key of
  another type and one that binds a string under \<^verbatim>\<open>CtxKey("ctx")\<close> decode to the error; the
  entry bound by hand is returned.
\<close>

theorem DecodeCtx_of_built_witness:
  "built two_tasks \<and> 0 < length (heap two_tasks)
   \<and> (\<exists>parent. DecodeCtx (Context (heap two_tasks ! 0)) = Inr (Some (TaskContext parent 0)))
   \<and> DecodeCtx (Context (heap (snd (New [] [] two_tasks)) ! fst (New [] [] two_tasks))) =
        Inr (Some (TaskContext None (fst (New [] [] two_tasks))))
   \<and> heap (snd (New [] [] two_tasks)) ! 0 = heap two_tasks ! 0
   \<and> (\<exists>s'. AddSubtasks 0 [1] two_tasks = Return s' \<and> 1 \<in> set [1::nat]
          \<and> DecodeCtx (Context (heap s' ! 1)) = Inr (Some (TaskContext (Some 0) 1))
          \<and> 0 \<notin> set [1::nat]
          \<and> Context (heap s' ! 0) = Context (heap two_tasks ! 0))
   \<and> Value other_key (CtxKey ''ctx'') = None
   \<and> DecodeCtx other_key = Inl (Error ''no context found'')
   \<and> Value plain_bound (CtxKey ''ctx'') = Some (Plain (VStr ''ctx''))
   \<and> DecodeCtx plain_bound = Inl (Error ''no context found'')
   \<and> Value hand_bound (CtxKey ''ctx'') = Some (PtrTaskContext (Some (TaskContext (Some 1) 0)))
   \<and> DecodeCtx hand_bound = Inr (Some (TaskContext (Some 1) 0))"
proof -
  have b: "built two_tasks"
    unfolding two_tasks_def by (intro built.intros)
  have len: "length (heap two_tasks) = 2"
    by (simp add: two_tasks_def New_def New_build_def init_def counter_Add_def)
  have "\<exists>s'. AddSubtasks 0 [1] two_tasks = Return s'"
    by (simp add: AddSubtasks_def len)
  then obtain s' where a: "AddSubtasks 0 [1] two_tasks = Return s'" ..
  have v1: "Value other_key (CtxKey ''ctx'') = None"
    by (simp add: other_key_def Value_def WithValue_def)
  have v2: "Value plain_bound (CtxKey ''ctx'') = Some (Plain (VStr ''ctx''))"
    by (simp add: plain_bound_def Value_def WithValue_def)
  have v3: "Value hand_bound (CtxKey ''ctx'') = Some (PtrTaskContext (Some (TaskContext (Some 1) 0)))"
    by (simp add: hand_bound_def Value_def WithValue_def)
  from DecodeCtx_of_built [OF b, of 0 "[]" "[]" 0 "[1]" s' 1 other_key plain_bound "VStr ''ctx''"
      hand_bound "Some (TaskContext (Some 1) 0)"] a len b v1 v2 v3
  show ?thesis by auto
qed

text \<open>
  Neither of these two contexts was bound by the builder. Decoding the first succeeds with
  the entry bound by hand; decoding the second succeeds with a nil pointer and a nil error.
\<close>

theorem DecodeCtx_hand_bound:
  "DecodeCtx hand_bound = Inr (Some (TaskContext (Some 1) 0))
   \<and> DecodeCtx nil_bound = Inr None
   \<and> MustDecodeCtx nil_bound = Return None"
  by (simp add: hand_bound_def nil_bound_def DecodeCtx_def MustDecodeCtx_def Value_def
      WithValue_def)

text \<open>
  Claim C5: every task gets an ID of its own, also when tasks are built concurrently. The
  code at two goroutines that call New on a fresh counter, when both read the counter
  before either adds to it: both tasks get the ID \<^verbatim>\<open>task_0\<close>, and the counter ends at 2.
\<close>

theorem New_race:
  "schedule [0, 1, 0, 1] ([Calling [] [], Calling [] []], init) =
     ([Returned 0, Returned 1],
      \<lparr>counter = 2,
       heap = [MkTask ''task_0'' [] [(CtxKey ''ctx'', PtrTaskContext (Some (TaskContext None 0)))] [] None None,
               MkTask ''task_0'' [] [(CtxKey ''ctx'', PtrTaskContext (Some (TaskContext None 1)))] [] None None]\<rparr>)"
  by (simp add: schedule_def New_build_def init_def counter_Add_def Sprintf_d_def WithValue_def
      set_Context_def)

end
